theory Spec2Isabelle
  imports Complex_Main "HOL-Library.Multiset" "HOL-Library.Sublist"
begin

section \<open>The export grouping of the catalog window\<close>

text \<open>
  The method \<^verbatim>\<open>get_images_to_export\<close> of the main window
  (\<^verbatim>\<open>src/monsterlangnachrumgetue.py\<close>, lines 1221 to 1269) partitions the
  images to export into groups, one group per CSV row. It reads four things of
  the window: the list of all images, the images currently selected, the text of
  the scan mode combo box and the value of the interval spin box. It changes
  none of them, so the window is a record of these four values and the method a
  function from that record to its result.
\<close>

subsection \<open>Python's \<^verbatim>\<open>range\<close> and list slices\<close>

text \<open>
  The only exception the method can raise is the \<^verbatim>\<open>ValueError\<close> of
  \<^verbatim>\<open>range\<close> called with step zero.
\<close>

datatype error = ValueError

text \<open>
  \<^verbatim>\<open>range(start, stop, step)\<close> for a step other than zero: it counts upwards
  while below \<^verbatim>\<open>stop\<close> for a positive step, downwards while above
  \<^verbatim>\<open>stop\<close> for a negative one.
\<close>

function py_range :: "int \<Rightarrow> int \<Rightarrow> int \<Rightarrow> int list" where
  "py_range i stop step =
     (if 0 < step \<and> i < stop then i # py_range (i + step) stop step
      else if step < 0 \<and> stop < i then i # py_range (i + step) stop step
      else [])"
  by pat_completeness auto
termination
  by (relation "measure (\<lambda>(i, stop, step). nat (if 0 < step then stop - i else i - stop))")
     auto

declare py_range.simps [simp del]

text \<open>
  \<^verbatim>\<open>xs[start:stop]\<close>: an index below zero counts from the end, and both
  indices are clamped to the list.
\<close>

definition py_slice :: "'a list \<Rightarrow> int \<Rightarrow> int \<Rightarrow> 'a list" where
  "py_slice xs start stop =
     (let n = int (length xs);
          lo = (if start < 0 then max (start + n) 0 else min start n);
          hi = (if stop < 0 then max (stop + n) 0 else min stop n)
      in take (nat (hi - lo)) (drop (nat lo) xs))"

subsection \<open>The window\<close>

text \<open>
  \<open>images\<close> is \<^verbatim>\<open>self.images\<close>, \<open>selected_images\<close> is what
  \<^verbatim>\<open>self.get_selected_images()\<close> returns (the selection lives in a Qt list
  widget), \<open>scan_mode_combo\<close> is \<^verbatim>\<open>self.scan_mode_combo.currentText()\<close>
  and \<open>interval_spin\<close> is \<^verbatim>\<open>self.interval_spin.value()\<close>.
\<close>

record 'a main_window =
  images :: "'a list"
  selected_images :: "'a list"
  scan_mode_combo :: string
  interval_spin :: int

text \<open>The items the combo box is filled with (line 832).\<close>

definition scan_modes :: "string list" where
  "scan_modes = [''Single'', ''Pair'', ''All'', ''Group of X'', ''Alternate'']"

subsection \<open>The grouping\<close>

text \<open>
  The list comprehensions of the modes Pair and Group of X are a \<open>map\<close> over
  the range. In mode Alternate the outer loop over \<^verbatim>\<open>range(interval)\<close>
  builds one group per step and appends it when it is not empty: a \<open>map\<close>
  followed by a \<open>filter\<close>. Every index the inner loop reads comes from
  \<^verbatim>\<open>range(step, len(preview_images), interval)\<close> with a step that is not
  negative, so it is inside the list.
\<close>

definition get_images_to_export :: "'a main_window \<Rightarrow> error + 'a list list" where
  "get_images_to_export w =
     (let mode = scan_mode_combo w;
          preview_images = selected_images w
      in if preview_images = [] \<and> mode \<noteq> ''All'' then Inr []
         else
           let preview_images = (if preview_images = [] then images w else preview_images)
           in if mode = ''Single'' then
                Inr (map (\<lambda>image. [image]) preview_images)
              else if mode = ''Pair'' then
                Inr (map (\<lambda>i. py_slice preview_images i (i + 2))
                       (py_range 0 (int (length preview_images)) 2))
              else if mode = ''All'' then
                Inr [preview_images]
              else if mode = ''Group of X'' then
                (let interval = interval_spin w
                 in if interval = 0 then Inl ValueError
                    else Inr (map (\<lambda>i. py_slice preview_images i (i + interval))
                                (py_range 0 (int (length preview_images)) interval)))
              else if mode = ''Alternate'' then
                (let interval = interval_spin w
                 in if interval \<le> 1 then Inr [preview_images]
                    else Inr (filter (\<lambda>group. group \<noteq> [])
                                (map (\<lambda>step. map (\<lambda>i. preview_images ! nat i)
                                               (py_range step (int (length preview_images)) interval))
                                   (py_range 0 interval 1))))
              else Inr [])"

text \<open>
  The sequence of entries that is grouped: the value of the variable
  \<^verbatim>\<open>preview_images\<close> after line 1233. It is the selection; when nothing is
  selected it is the list of all images in mode All, and empty in every other
  mode (where the method returns at once).
\<close>

definition preview_images :: "'a main_window \<Rightarrow> 'a list" where
  "preview_images w =
     (if selected_images w = []
      then (if scan_mode_combo w = ''All'' then images w else [])
      else selected_images w)"

section \<open>What the loops compute\<close>

subsection \<open>The range in closed form\<close>

lemma py_range_stop [simp]: "0 < step \<Longrightarrow> stop \<le> i \<Longrightarrow> py_range i stop step = []"
  by (simp add: py_range.simps)

lemma py_range_step: "0 < step \<Longrightarrow> i < stop \<Longrightarrow> py_range i stop step = i # py_range (i + step) stop step"
  by (subst py_range.simps) simp

lemma py_range_neg: "step < 0 \<Longrightarrow> i \<le> stop \<Longrightarrow> py_range i stop step = []"
  by (simp add: py_range.simps)

text \<open>
  A range with a positive step that starts at or above zero stays below its
  stop, so the inner loop of mode Alternate never reads outside the list.
\<close>

lemma py_range_in_bounds:
  "0 < step \<Longrightarrow> 0 \<le> i \<Longrightarrow> j \<in> set (py_range i stop step) \<Longrightarrow> 0 \<le> j \<and> j < stop"
proof (induction i stop step rule: py_range.induct)
  case (1 i stop step)
  show ?case
  proof (cases "i < stop")
    case True
    then have "j = i \<or> j \<in> set (py_range (i + step) stop step)"
      using 1(3,5) by (simp add: py_range_step)
    then show ?thesis
      using 1(1) [OF _ 1(3)] 1(3,4) True by auto
  next
    case False
    then show ?thesis using 1(3,5) by simp
  qed
qed

lemma alternate_reads_in_bounds:
  assumes "2 \<le> interval" and "step \<in> set (py_range 0 interval 1)"
    and "i \<in> set (py_range step (int (length xs)) interval)"
  shows "nat i < length xs"
proof -
  have "0 \<le> step" using py_range_in_bounds [of 1 0 step interval] assms(2) by simp
  then have "0 \<le> i \<and> i < int (length xs)"
    using py_range_in_bounds [of interval step i "int (length xs)"] assms(1,3) by simp
  then show ?thesis by linarith
qed

lemma div_le_zero_int: "0 < (b::int) \<Longrightarrow> a < b \<Longrightarrow> a div b \<le> 0"
proof -
  assume b: "0 < b" and a: "a < b"
  have "a div b \<le> (b - 1) div b" using a b by (intro zdiv_mono1) auto
  also have "\<dots> = 0" using b by (simp add: div_pos_pos_trivial)
  finally show ?thesis .
qed

lemma py_range_closed:
  "0 < step \<Longrightarrow> py_range i stop step =
     map (\<lambda>j. i + int j * step) [0..<nat ((stop - i + step - 1) div step)]"
proof (induction i stop step rule: py_range.induct)
  case (1 i stop step)
  show ?case
  proof (cases "i < stop")
    case True
    let ?c = "(stop - (i + step) + step - 1) div step"
    have "stop - i + step - 1 = (stop - (i + step) + step - 1) + step" by simp
    then have d: "(stop - i + step - 1) div step = ?c + 1"
      using 1(3) by (metis div_add_self2 less_irrefl)
    have nn: "0 \<le> ?c" using 1(3) True by (simp add: pos_imp_zdiv_nonneg_iff)
    have n: "nat ((stop - i + step - 1) div step) = Suc (nat ?c)"
      using d nn by simp
    have "py_range i stop step = i # py_range (i + step) stop step"
      using 1(3) True by (rule py_range_step)
    also have "py_range (i + step) stop step = map (\<lambda>j. i + step + int j * step) [0..<nat ?c]"
      using 1(1) 1(3) True by simp
    finally show ?thesis
      unfolding n map_upt_Suc by (simp add: algebra_simps)
  next
    case False
    then have "(stop - i + step - 1) div step \<le> 0"
      using 1(3) by (intro div_le_zero_int) auto
    then show ?thesis using 1(3) False by simp
  qed
qed

lemma py_range_nat:
  assumes "0 < m"
  shows "py_range (int k) (int n) (int m) = map (\<lambda>j. int (k + j * m)) [0..<(n - k + m - 1) div m]"
proof -
  have c: "nat ((int n - int k + int m - 1) div int m) = (n - k + m - 1) div m"
  proof (cases "k \<le> n")
    case True
    then have "int n - int k + int m - 1 = int (n - k + m - 1)" using assms by auto
    then have "nat ((int n - int k + int m - 1) div int m) = nat (int (n - k + m - 1) div int m)"
      by (rule arg_cong)
    then show ?thesis by (simp only: nat_int flip: zdiv_int)
  next
    case False
    then have "(int n - int k + int m - 1) div int m \<le> 0"
      using assms by (intro div_le_zero_int) auto
    then show ?thesis using False assms by simp
  qed
  show ?thesis
    using assms by (simp add: py_range_closed c)
qed

lemma py_range_upto: "py_range 0 (int m) 1 = map int [0..<m]"
  using py_range_nat [of 1 0 m] by simp

lemma py_range_upto': "0 \<le> i \<Longrightarrow> py_range 0 i 1 = map int [0..<nat i]"
  using py_range_upto [of "nat i"] by simp

subsection \<open>Slices and chunks\<close>

lemma py_slice_nat:
  "py_slice xs (int a) (int a + int k) = take k (drop a xs)"
proof (cases "a \<le> length xs")
  case True
  have "nat (min (int a + int k) (int (length xs)) - int a) = min k (length xs - a)"
    using True by auto
  then have "py_slice xs (int a) (int a + int k) = take (min k (length xs - a)) (drop a xs)"
    using True by (simp add: py_slice_def Let_def min_absorb1)
  also have "\<dots> = take k (drop a xs)"
    by (simp add: min_def)
  finally show ?thesis .
next
  case False
  then show ?thesis by (simp add: py_slice_def Let_def min_def)
qed

lemma chunks_closed:
  assumes "0 < m"
  shows "map (\<lambda>i. py_slice xs i (i + int m)) (py_range 0 (int (length xs)) (int m)) =
         map (\<lambda>j. take m (drop (j * m) xs)) [0..<(length xs + m - 1) div m]"
proof -
  have "py_range 0 (int (length xs)) (int m) =
        map (\<lambda>j. int (j * m)) [0..<(length xs + m - 1) div m]"
    using py_range_nat [OF assms, of 0 "length xs"] by simp
  moreover have "py_slice xs (int j * int m) (int j * int m + int m) = take m (drop (j * m) xs)" for j
    using py_slice_nat [of xs "j * m" m] by simp
  ultimately show ?thesis
    by (simp add: o_def)
qed


subsection \<open>Strides\<close>

lemma count_less_iff: "0 < m \<Longrightarrow> j < (n - k + m - 1) div m \<longleftrightarrow> k + j * m < (n::nat)"
proof -
  assume m: "0 < m"
  have "j < (n - k + m - 1) div m \<longleftrightarrow> Suc j \<le> (n - k + m - 1) div m" by auto
  also have "\<dots> \<longleftrightarrow> Suc j * m \<le> n - k + m - 1"
    using m by (simp only: less_eq_div_iff_mult_less_eq)
  also have "\<dots> \<longleftrightarrow> k + j * m < n" using m by auto
  finally show ?thesis .
qed

lemma count_pos_iff: "0 < m \<Longrightarrow> 0 < (n - k + m - 1) div m \<longleftrightarrow> k < (n::nat)"
  using count_less_iff [of m 0 n k] by simp

lemma filter_less_upt: "filter (\<lambda>k. k < n) [0..<m] = [0..<min m n]"
proof (induction m)
  case 0
  show ?case by simp
next
  case (Suc m)
  show ?case
  proof (cases "m < n")
    case True
    then show ?thesis using Suc by (simp add: min_def)
  next
    case False
    then have "min (Suc m) n = min m n" by simp
    then show ?thesis using Suc False by simp
  qed
qed

lemma stride_eq_filter:
  assumes "k < m"
  shows "map (\<lambda>j. k + j * m) [0..<(n - k + m - 1) div m] = filter (\<lambda>i. i mod m = k) [0..<n]"
proof (rule sorted_distinct_set_unique)
  have m: "0 < m" using assms by simp
  show "sorted (map (\<lambda>j. k + j * m) [0..<(n - k + m - 1) div m])"
    using m by (simp add: sorted_map sorted_wrt_iff_nth_less) 
  show "distinct (map (\<lambda>j. k + j * m) [0..<(n - k + m - 1) div m])"
    using m by (simp add: distinct_map inj_on_def)
  show "sorted (filter (\<lambda>i. i mod m = k) [0..<n])"
    by (rule sorted_wrt_filter) simp
  show "distinct (filter (\<lambda>i. i mod m = k) [0..<n])" by simp
  show "set (map (\<lambda>j. k + j * m) [0..<(n - k + m - 1) div m]) = set (filter (\<lambda>i. i mod m = k) [0..<n])"
  proof (intro set_eqI iffI)
    fix i assume "i \<in> set (map (\<lambda>j. k + j * m) [0..<(n - k + m - 1) div m])"
    then obtain j where j: "j < (n - k + m - 1) div m" "i = k + j * m" by auto
    then have "i < n" using count_less_iff [OF m] by simp
    moreover have "i mod m = k" using j assms by simp
    ultimately show "i \<in> set (filter (\<lambda>i. i mod m = k) [0..<n])" by simp
  next
    fix i assume "i \<in> set (filter (\<lambda>i. i mod m = k) [0..<n])"
    then have i: "i < n" "i mod m = k" by auto
    then have e: "i = k + (i div m) * m" by (metis add.commute div_mult_mod_eq)
    then have "i div m < (n - k + m - 1) div m"
      using i count_less_iff [OF m, of "i div m" n k] by simp
    then show "i \<in> set (map (\<lambda>j. k + j * m) [0..<(n - k + m - 1) div m])"
      using e by (auto simp: image_iff)
  qed
qed


lemma alternate_groups:
  assumes "0 < m"
  shows "map (\<lambda>step. map (\<lambda>i. xs ! nat i) (py_range step (int n) (int m))) (py_range 0 (int m) 1) =
         map (\<lambda>k. map ((!) xs) (filter (\<lambda>i. i mod m = k) [0..<n])) [0..<m]"
proof -
  have "map (\<lambda>i. xs ! nat i) (py_range (int k) (int n) (int m)) =
        map ((!) xs) (filter (\<lambda>i. i mod m = k) [0..<n])" if "k < m" for k
  proof -
    have "map (\<lambda>i. xs ! nat i) (py_range (int k) (int n) (int m)) =
          map ((!) xs) (map (\<lambda>j. k + j * m) [0..<(n - k + m - 1) div m])"
      by (simp add: py_range_nat [OF assms] o_def del: of_nat_add of_nat_mult)
    then show ?thesis by (simp only: stride_eq_filter [OF that])
  qed
  then show ?thesis
    by (simp add: py_range_upto o_def)
qed

lemma sum_list_delta_mset:
  "c < m \<Longrightarrow> (\<Sum>k\<leftarrow>[0..<m]. if c = k then {#x#} else {#}) = {#x#}"
  by (simp add: interv_sum_list_conv_sum_set_nat)

lemma mset_residues:
  assumes "0 < m"
  shows "(\<Sum>k\<leftarrow>[0..<m]. mset (filter (\<lambda>i. i mod m = k) l)) = mset l"
proof (induction l)
  case Nil
  show ?case by (simp add: sum_list_0)
next
  case (Cons x l)
  have "(\<Sum>k\<leftarrow>[0..<m]. mset (filter (\<lambda>i. i mod m = k) (x # l))) =
        (\<Sum>k\<leftarrow>[0..<m]. (if x mod m = k then {#x#} else {#}) + mset (filter (\<lambda>i. i mod m = k) l))"
    by (intro arg_cong [where f = sum_list] map_cong) auto
  also have "\<dots> = {#x#} + mset l"
    using assms Cons.IH by (simp add: sum_list_addf sum_list_delta_mset)
  finally show ?case by simp
qed

lemma alternate_mset:
  assumes "0 < m"
  shows "mset (concat (map (\<lambda>k. map ((!) xs) (filter (\<lambda>i. i mod m = k) [0..<length xs])) [0..<m])) = mset xs"
proof -
  have "concat (map (\<lambda>k. map ((!) xs) (filter (\<lambda>i. i mod m = k) [0..<length xs])) [0..<m]) =
        map ((!) xs) (concat (map (\<lambda>k. filter (\<lambda>i. i mod m = k) [0..<length xs]) [0..<m]))"
    by (simp add: map_concat o_def)
  moreover have "mset (concat (map (\<lambda>k. filter (\<lambda>i. i mod m = k) [0..<length xs]) [0..<m])) = mset [0..<length xs]"
    by (simp only: mset_concat map_map o_def mset_residues [OF assms])
  ultimately have "mset (concat (map (\<lambda>k. map ((!) xs) (filter (\<lambda>i. i mod m = k) [0..<length xs])) [0..<m]))
      = mset (map ((!) xs) [0..<length xs])"
    by (simp only: mset_map)
  then show ?thesis by (simp only: map_nth)
qed

lemma alternate_subseq: "subseq (map ((!) xs) (filter P [0..<length xs])) xs"
proof -
  have "subseq (map ((!) xs) (filter P [0..<length xs])) (map ((!) xs) [0..<length xs])"
    by (intro subseq_map subseq_filter_left)
  then show ?thesis by (simp only: map_nth)
qed

subsection \<open>Chunks cover the list\<close>

lemma concat_chunks_take:
  "concat (map (\<lambda>j. take m (drop (j * m) xs)) [0..<c]) = take (c * m) xs"
proof (induction c)
  case 0
  show ?case by simp
next
  case (Suc c)
  have "take (Suc c * m) xs = take (c * m + m) xs" by (simp add: add.commute)
  also have "\<dots> = take (c * m) xs @ take m (drop (c * m) xs)" by (rule take_add)
  finally show ?case using Suc by simp
qed

lemma ceil_mult_ge: "0 < m \<Longrightarrow> (n::nat) \<le> (n + m - 1) div m * m"
proof -
  assume m: "0 < m"
  have "n + m - 1 = (n + m - 1) div m * m + (n + m - 1) mod m" by simp
  moreover have "(n + m - 1) mod m < m" using m by simp
  ultimately show ?thesis by linarith
qed

lemma ceil_mult_less: "0 < m \<Longrightarrow> (n + m - 1) div m * m < n + (m::nat)"
proof -
  assume m: "0 < m"
  have "(n + m - 1) div m * m \<le> n + m - 1" by simp
  then show ?thesis using m by linarith
qed

lemma concat_chunks:
  assumes "0 < m"
  shows "concat (map (\<lambda>j. take m (drop (j * m) xs)) [0..<(length xs + m - 1) div m]) = xs"
  using ceil_mult_ge [OF assms, of "length xs"] by (simp add: concat_chunks_take)

lemma ceiling_div_nat:
  assumes "0 < m"
  shows "\<lceil>real n / real m\<rceil> = int ((n + m - 1) div m)"
proof (rule ceiling_unique)
  let ?c = "(n + m - 1) div m"
  have m: "0 < real m" using assms by simp
  have "real (?c * m) < real (n + m)"
    using ceil_mult_less [OF assms, of n] by (simp only: of_nat_less_iff)
  then have "(real ?c - 1) * real m < real n"
    by (simp add: algebra_simps)
  then show "real_of_int (int ?c) - 1 < real n / real m"
    using m by (simp add: pos_less_divide_eq)
  have "real n \<le> real (?c * m)"
    using ceil_mult_ge [OF assms, of n] by (simp only: of_nat_le_iff)
  then show "real n / real m \<le> real_of_int (int ?c)"
    using m by (simp add: pos_divide_le_eq)
qed

lemma chunk_sizes:
  assumes "0 < m" and "j < (length xs + m - 1) div m"
  shows "length (take m (drop (j * m) xs)) = (if Suc j < (length xs + m - 1) div m then m else length xs - j * m)"
    and "0 < length (take m (drop (j * m) xs))"
    and "length (take m (drop (j * m) xs)) \<le> m"
proof -
  have j: "j * m < length xs"
    using count_less_iff [OF assms(1), of j "length xs" 0] assms(2) by simp
  then show "0 < length (take m (drop (j * m) xs))" using assms(1) by simp
  show "length (take m (drop (j * m) xs)) \<le> m" by simp
  show "length (take m (drop (j * m) xs)) = (if Suc j < (length xs + m - 1) div m then m else length xs - j * m)"
  proof (cases "Suc j < (length xs + m - 1) div m")
    case True
    then have "Suc j * m < length xs"
      using count_less_iff [OF assms(1), of "Suc j" "length xs" 0] by simp
    then show ?thesis using True by simp
  next
    case False
    then have "\<not> Suc j * m < length xs"
      using count_less_iff [OF assms(1), of "Suc j" "length xs" 0] by simp
    then show ?thesis using False by (simp add: min_def)
  qed
qed

lemma chunks_props:
  assumes "0 < m"
  shows "let gs = map (\<lambda>j. take m (drop (j * m) xs)) [0..<(length xs + m - 1) div m]
         in concat gs = xs \<and>
            int (length gs) = \<lceil>real (length xs) / real m\<rceil> \<and>
            (\<forall>j<length gs. length (gs ! j) = (if Suc j < length gs then m else length xs - j * m) \<and>
                             0 < length (gs ! j) \<and> length (gs ! j) \<le> m)"
  unfolding Let_def
proof (intro conjI allI impI)
  let ?gs = "map (\<lambda>j. take m (drop (j * m) xs)) [0..<(length xs + m - 1) div m]"
  show "concat ?gs = xs" by (rule concat_chunks [OF assms])
  show "int (length ?gs) = \<lceil>real (length xs) / real m\<rceil>"
    by (simp only: ceiling_div_nat [OF assms] length_map length_upt diff_zero)
  fix j
  assume "j < length ?gs"
  then have j: "j < (length xs + m - 1) div m" by simp
  have nth: "?gs ! j = take m (drop (j * m) xs)" using j by simp
  have len: "length ?gs = (length xs + m - 1) div m" by simp
  show "length (?gs ! j) = (if Suc j < length ?gs then m else length xs - j * m)"
    unfolding nth len by (rule chunk_sizes(1) [OF assms j])
  show "0 < length (?gs ! j)"
    unfolding nth by (rule chunk_sizes(2) [OF assms j])
  show "length (?gs ! j) \<le> m"
    unfolding nth by (rule chunk_sizes(3) [OF assms j])
qed

lemma last_pair_odd:
  assumes "odd (length xs)"
  shows "length (last (map (\<lambda>j. take 2 (drop (j * 2) xs)) [0..<(length xs + 1) div 2])) = 1"
proof -
  obtain c where c: "length xs = Suc (2 * c)" using assms by (auto elim: oddE)
  then have "(length xs + 1) div 2 = Suc c" by simp
  then have "last (map (\<lambda>j. take 2 (drop (j * 2) xs)) [0..<(length xs + 1) div 2]) = take 2 (drop (c * 2) xs)"
    by (simp add: last_map)
  then show ?thesis using c by simp
qed

lemma singletons_nth: "map (\<lambda>j. take (Suc 0) (drop j xs)) [0..<length xs] = map (\<lambda>x. [x]) xs"
proof -
  have "map (\<lambda>j. take (Suc 0) (drop j xs)) [0..<length xs] = map (\<lambda>j. [xs ! j]) [0..<length xs]"
    by (simp add: take_Suc_conv_app_nth Cons_nth_drop_Suc [symmetric])
  also have "\<dots> = map (\<lambda>x. [x]) (map ((!) xs) [0..<length xs])" by (simp add: o_def)
  finally show ?thesis by (simp only: map_nth)
qed

lemma subseq_chunk: "subseq (take m (drop a xs)) xs"
  by (metis append_take_drop_id list_emb_append2 sublist_imp_subseq sublist_take)

lemma concat_nonempty: "concat (filter (\<lambda>xs. xs \<noteq> []) xss) = concat xss"
  by (induction xss) auto

subsection \<open>Strided groups\<close>

lemma alternate_closed:
  assumes "0 < m"
  shows "filter (\<lambda>group. group \<noteq> [])
           (map (\<lambda>k. map ((!) xs) (filter (\<lambda>i. i mod m = k) [0..<n])) [0..<m]) =
         map (\<lambda>k. map (\<lambda>j. xs ! (k + j * m)) [0..<(n - k + m - 1) div m]) [0..<min m n]"
proof -
  have g: "map ((!) xs) (filter (\<lambda>i. i mod m = k) [0..<n]) =
           map (\<lambda>j. xs ! (k + j * m)) [0..<(n - k + m - 1) div m]" if "k < m" for k
    by (simp add: stride_eq_filter [OF that, symmetric] o_def)
  have "map (\<lambda>k. map ((!) xs) (filter (\<lambda>i. i mod m = k) [0..<n])) [0..<m] =
        map (\<lambda>k. map (\<lambda>j. xs ! (k + j * m)) [0..<(n - k + m - 1) div m]) [0..<m]"
    using g by simp
  moreover have ne: "(map (\<lambda>j. xs ! (k + j * m)) [0..<(n - k + m - 1) div m] \<noteq> []) = (k < n)" for k
    using count_pos_iff [OF assms, of n k] by simp
  have "filter (\<lambda>group. group \<noteq> [])
           (map (\<lambda>k. map (\<lambda>j. xs ! (k + j * m)) [0..<(n - k + m - 1) div m]) [0..<m]) =
         map (\<lambda>k. map (\<lambda>j. xs ! (k + j * m)) [0..<(n - k + m - 1) div m]) (filter (\<lambda>k. k < n) [0..<m])"
    unfolding filter_map o_def by (simp only: ne)
  ultimately show ?thesis by (simp only: filter_less_upt)
qed

section \<open>The result in each mode\<close>

text \<open>
  One lemma per branch of the method, in terms of the sequence that is grouped.
\<close>

lemma scan_modes_cases:
  assumes "m \<in> set scan_modes"
  obtains "m = ''Single''" | "m = ''Pair''" | "m = ''All''" | "m = ''Group of X''" | "m = ''Alternate''"
  using assms by (auto simp: scan_modes_def)

lemma preview_images_selected:
  "scan_mode_combo w \<noteq> ''All'' \<Longrightarrow> preview_images w = selected_images w"
  by (simp add: preview_images_def)

lemma export_unselected:
  "selected_images w = [] \<Longrightarrow> scan_mode_combo w \<noteq> ''All'' \<Longrightarrow>
   get_images_to_export w = Inr []"
  by (simp add: get_images_to_export_def Let_def)

lemma export_Single:
  "scan_mode_combo w = ''Single'' \<Longrightarrow>
   get_images_to_export w = Inr (map (\<lambda>image. [image]) (preview_images w))"
  by (simp add: get_images_to_export_def preview_images_def Let_def)

lemma export_Pair:
  assumes "scan_mode_combo w = ''Pair''"
  shows "get_images_to_export w =
         Inr (map (\<lambda>j. take 2 (drop (j * 2) (preview_images w)))
                [0..<(length (preview_images w) + 1) div 2])"
proof (cases "selected_images w = []")
  case True
  then show ?thesis using assms
    by (simp add: get_images_to_export_def preview_images_def Let_def)
next
  case False
  then have "get_images_to_export w =
     Inr (map (\<lambda>i. py_slice (preview_images w) i (i + int 2))
            (py_range 0 (int (length (preview_images w))) (int 2)))"
    using assms by (simp add: get_images_to_export_def preview_images_def Let_def)
  then show ?thesis using chunks_closed [of 2 "preview_images w"] by simp
qed

lemma export_All:
  "scan_mode_combo w = ''All'' \<Longrightarrow> get_images_to_export w = Inr [preview_images w]"
  by (simp add: get_images_to_export_def preview_images_def Let_def)

lemma export_Group:
  assumes "scan_mode_combo w = ''Group of X''" and "0 < interval_spin w"
  shows "get_images_to_export w =
         Inr (map (\<lambda>j. take (nat (interval_spin w)) (drop (j * nat (interval_spin w)) (preview_images w)))
                [0..<(length (preview_images w) + nat (interval_spin w) - 1) div nat (interval_spin w)])"
proof -
  have i: "interval_spin w = int (nat (interval_spin w))" and m: "0 < nat (interval_spin w)"
    using assms(2) by simp_all
  show ?thesis
  proof (cases "selected_images w = []")
    case True
    then show ?thesis using assms m
      by (simp add: get_images_to_export_def preview_images_def Let_def)
  next
    case False
    then have "get_images_to_export w =
       Inr (map (\<lambda>i. py_slice (preview_images w) i (i + int (nat (interval_spin w))))
              (py_range 0 (int (length (preview_images w))) (int (nat (interval_spin w)))))"
      using assms by (simp add: get_images_to_export_def preview_images_def Let_def)
    then show ?thesis by (simp only: chunks_closed [OF m])
  qed
qed

lemma export_Group_negative:
  "scan_mode_combo w = ''Group of X'' \<Longrightarrow> interval_spin w < 0 \<Longrightarrow> get_images_to_export w = Inr []"
  by (simp add: get_images_to_export_def Let_def py_range_neg)

lemma export_Alternate_low:
  assumes "scan_mode_combo w = ''Alternate''" and "interval_spin w \<le> 1"
  shows "get_images_to_export w = Inr (if preview_images w = [] then [] else [preview_images w])"
  using assms by (simp add: get_images_to_export_def preview_images_def Let_def)

lemma export_Alternate:
  assumes "scan_mode_combo w = ''Alternate''" and "2 \<le> interval_spin w"
  shows "get_images_to_export w =
         Inr (filter (\<lambda>group. group \<noteq> [])
               (map (\<lambda>k. map ((!) (preview_images w))
                            (filter (\<lambda>i. i mod nat (interval_spin w) = k) [0..<length (preview_images w)]))
                  [0..<nat (interval_spin w)]))"
proof -
  have m: "0 < nat (interval_spin w)"
    using assms(2) by simp
  show ?thesis
  proof (cases "selected_images w = []")
    case True
    then show ?thesis using assms
      by (simp add: get_images_to_export_def preview_images_def Let_def filter_empty_conv)
  next
    case False
    then have "get_images_to_export w =
       Inr (filter (\<lambda>group. group \<noteq> [])
             (map (\<lambda>step. map (\<lambda>i. preview_images w ! nat i)
                     (py_range step (int (length (preview_images w))) (int (nat (interval_spin w)))))
                (py_range 0 (int (nat (interval_spin w))) 1)))"
      using assms by (simp add: get_images_to_export_def preview_images_def Let_def)
    then show ?thesis by (simp only: alternate_groups [OF m])
  qed
qed

lemma export_other:
  "scan_mode_combo w \<notin> set scan_modes \<Longrightarrow> get_images_to_export w = Inr []"
  by (simp add: get_images_to_export_def scan_modes_def Let_def)

lemma export_error_iff:
  "get_images_to_export w = Inl e \<longleftrightarrow>
   scan_mode_combo w = ''Group of X'' \<and> interval_spin w = 0 \<and> selected_images w \<noteq> []"
  by (cases e) (auto simp: get_images_to_export_def Let_def)

lemma no_empty_group:
  assumes "get_images_to_export w = Inr gs" and "g \<in> set gs"
    and "scan_mode_combo w = ''All'' \<longrightarrow> preview_images w \<noteq> []"
  shows "g \<noteq> []"
proof (cases "scan_mode_combo w \<in> set scan_modes")
  case False
  then show ?thesis using assms(1,2) by (simp add: export_other)
next
  case True
  then show ?thesis
  proof (cases rule: scan_modes_cases)
    case 1
    then show ?thesis using assms(1,2) by (auto simp: export_Single)
  next
    case 2
    have m: "0 < (2::nat)" by simp
    obtain j where "j < (length (preview_images w) + 2 - 1) div 2"
        and "g = take 2 (drop (j * 2) (preview_images w))"
      using assms(1,2) by (auto simp: export_Pair [OF 2])
    then show ?thesis using chunk_sizes(2) [OF m, of j "preview_images w"] by auto
  next
    case 3
    then show ?thesis using assms by (auto simp: export_All)
  next
    case 4
    consider "interval_spin w < 0" | "interval_spin w = 0" | "0 < interval_spin w" by linarith
    then show ?thesis
    proof cases
      case 1
      then show ?thesis using assms(1,2) by (simp add: export_Group_negative [OF 4])
    next
      case 2
      then show ?thesis using assms(1,2) 4 by (auto simp: get_images_to_export_def Let_def split: if_splits)
    next
      case 3
      then have m: "0 < nat (interval_spin w)" by simp
      obtain j where "j < (length (preview_images w) + nat (interval_spin w) - 1) div nat (interval_spin w)"
        and "g = take (nat (interval_spin w)) (drop (j * nat (interval_spin w)) (preview_images w))"
        using assms(1,2) by (auto simp: export_Group [OF 4 3])
      then show ?thesis using chunk_sizes(2) [OF m, of j "preview_images w"] by auto
    qed
  next
    case 5
    show ?thesis
    proof (cases "interval_spin w \<le> 1")
      case True
      then show ?thesis using assms(1,2) by (auto simp: export_Alternate_low [OF 5] split: if_splits)
    next
      case False
      then have "2 \<le> interval_spin w" by simp
      then show ?thesis using assms(1,2) by (auto simp: export_Alternate [OF 5])
    qed
  qed
qed

lemma alternate_low_is_all:
  assumes "scan_mode_combo w = ''Alternate''" and "interval_spin w \<le> 1"
    and "scan_mode_combo w' = ''All''"
    and "preview_images w' = preview_images w" and "preview_images w \<noteq> []"
  shows "get_images_to_export w = get_images_to_export w'"
  using assms by (simp add: export_Alternate_low export_All)

section \<open>Properties\<close>

text \<open>
  C1. For every window whose mode is one of the five of the combo box and whose
  interval is at least 1, the method returns groups whose entries, taken
  together as a multiset, are exactly the entries of the grouped sequence
  (nothing dropped, nothing duplicated), and every group is a subsequence of
  that sequence: its entries keep the relative order they have there. The
  grouped sequence is \<open>preview_images\<close>: the selection, or all images in mode
  All when nothing is selected.
\<close>

theorem groups_partition_input:
  assumes "scan_mode_combo w \<in> set scan_modes" and "1 \<le> interval_spin w"
  shows "\<exists>gs. get_images_to_export w = Inr gs \<and>
              mset (concat gs) = mset (preview_images w) \<and>
              (\<forall>g\<in>set gs. subseq g (preview_images w))"
  using assms(1)
proof (cases rule: scan_modes_cases)
  case 1
  then show ?thesis by (auto simp: export_Single o_def subseq_singleton_left)
next
  case 2
  show ?thesis
    using concat_chunks [of 2 "preview_images w"]
    by (auto simp: export_Pair [OF 2] subseq_chunk)
next
  case 3
  then show ?thesis by (simp add: export_All)
next
  case 4
  have m: "0 < nat (interval_spin w)" and i: "0 < interval_spin w" using assms(2) by simp_all
  show ?thesis
    using concat_chunks [OF m, of "preview_images w"]
    by (auto simp: export_Group [OF 4 i] subseq_chunk)
next
  case 5
  show ?thesis
  proof (cases "interval_spin w \<le> 1")
    case True
    then show ?thesis by (simp add: export_Alternate_low [OF 5])
  next
    case False
    then have i: "2 \<le> interval_spin w" by simp
    then have m: "0 < nat (interval_spin w)" by simp
    show ?thesis
      using alternate_mset [OF m, of "preview_images w"]
      by (auto simp: export_Alternate [OF 5 i] concat_nonempty alternate_subseq)
  qed
qed

theorem groups_partition_input_witness:
  "let w = \<lparr>images = [0, 1, 2, 3, 4, 5, 6, 7 :: nat], selected_images = [0, 1, 2, 3, 4, 5, 6],
              scan_mode_combo = ''Alternate'', interval_spin = 3\<rparr>
   in scan_mode_combo w \<in> set scan_modes \<and> 1 \<le> interval_spin w \<and>
      (\<exists>gs. get_images_to_export w = Inr gs \<and>
            mset (concat gs) = mset (preview_images w) \<and>
            (\<forall>g\<in>set gs. subseq g (preview_images w)))"
  using groups_partition_input
    [of "\<lparr>images = [0, 1, 2, 3, 4, 5, 6, 7 :: nat], selected_images = [0, 1, 2, 3, 4, 5, 6],
          scan_mode_combo = ''Alternate'', interval_spin = 3\<rparr>"]
  by (simp add: scan_modes_def Let_def)

text \<open>
  C2. Mode All returns one group holding the whole grouped sequence (lemma
  \<open>export_All\<close>). The claim wants an empty output when there is nothing to
  group. The method does not do that: with no image loaded and none selected it
  returns one empty group.
\<close>

theorem all_mode_nothing_loaded:
  "get_images_to_export
     \<lparr>images = ([] :: nat list), selected_images = [], scan_mode_combo = ''All'', interval_spin = 1\<rparr> =
   Inr [[]]"
  by (simp add: get_images_to_export_def)

text \<open>
  C3, as stated, fails: the method returns normally on a mode that is not in
  the combo box, in mode Alternate with interval 0 and in mode Group of X with a
  negative interval.
\<close>

theorem invalid_argument_counterexample:
  "get_images_to_export
     \<lparr>images = [0, 1 :: nat], selected_images = [0, 1], scan_mode_combo = ''Triple'', interval_spin = 1\<rparr> =
     Inr [] \<and>
   get_images_to_export
     \<lparr>images = [0, 1 :: nat], selected_images = [0, 1], scan_mode_combo = ''Alternate'', interval_spin = 0\<rparr> =
     Inr [[0, 1]] \<and>
   get_images_to_export
     \<lparr>images = [0, 1 :: nat], selected_images = [0, 1], scan_mode_combo = ''Group of X'', interval_spin = - 1\<rparr> =
     Inr []"
  by (simp add: get_images_to_export_def py_range.simps)

text \<open>
  C3, amended. The method has no error of its own. A mode that is not in the
  combo box gives the empty output; mode Alternate with an interval of at most 1
  gives a selection that is not empty as one group, as mode All does; with an
  interval of at least 1 the method always returns. It fails in one case only, with the
  \<^verbatim>\<open>ValueError\<close> of \<^verbatim>\<open>range\<close>: mode Group of X, interval 0 and a
  selection that is not empty.
\<close>

theorem export_without_invalid_argument:
  "(scan_mode_combo w \<notin> set scan_modes \<longrightarrow> get_images_to_export w = Inr []) \<and>
   (scan_mode_combo w = ''Alternate'' \<and> interval_spin w \<le> 1 \<and> selected_images w \<noteq> [] \<longrightarrow>
      get_images_to_export w = Inr [selected_images w]) \<and>
   (1 \<le> interval_spin w \<longrightarrow> (\<exists>gs. get_images_to_export w = Inr gs)) \<and>
   (get_images_to_export w = Inl ValueError \<longleftrightarrow>
      scan_mode_combo w = ''Group of X'' \<and> interval_spin w = 0 \<and> selected_images w \<noteq> [])"
proof (intro conjI impI)
  assume "scan_mode_combo w \<notin> set scan_modes"
  then show "get_images_to_export w = Inr []" by (rule export_other)
next
  assume "scan_mode_combo w = ''Alternate'' \<and> interval_spin w \<le> 1 \<and> selected_images w \<noteq> []"
  then show "get_images_to_export w = Inr [selected_images w]"
    by (simp add: export_Alternate_low preview_images_selected)
next
  assume "1 \<le> interval_spin w"
  then have "\<not> isl (get_images_to_export w)"
    using export_error_iff [of w] by (auto simp: isl_def)
  then show "\<exists>gs. get_images_to_export w = Inr gs"
    by (cases "get_images_to_export w") auto
next
  show "get_images_to_export w = Inl ValueError \<longleftrightarrow>
      scan_mode_combo w = ''Group of X'' \<and> interval_spin w = 0 \<and> selected_images w \<noteq> []"
    by (rule export_error_iff)
qed

theorem export_without_invalid_argument_witness:
  "(let w = \<lparr>images = [0, 1 :: nat], selected_images = [0, 1], scan_mode_combo = ''Triple'', interval_spin = 1\<rparr>
    in scan_mode_combo w \<notin> set scan_modes \<and> 1 \<le> interval_spin w \<and> get_images_to_export w = Inr []) \<and>
   (let w = \<lparr>images = [0, 1 :: nat], selected_images = [0, 1], scan_mode_combo = ''Alternate'', interval_spin = 1\<rparr>
    in scan_mode_combo w = ''Alternate'' \<and> interval_spin w \<le> 1 \<and> selected_images w \<noteq> [] \<and>
       get_images_to_export w = Inr [selected_images w]) \<and>
   (let w = \<lparr>images = [0, 1 :: nat], selected_images = [0, 1], scan_mode_combo = ''Group of X'', interval_spin = 0\<rparr>
    in scan_mode_combo w = ''Group of X'' \<and> interval_spin w = 0 \<and> selected_images w \<noteq> [] \<and>
       get_images_to_export w = Inl ValueError)"
  using
    export_without_invalid_argument
      [of "\<lparr>images = [0, 1 :: nat], selected_images = [0, 1], scan_mode_combo = ''Triple'', interval_spin = 1\<rparr>"]
    export_without_invalid_argument
      [of "\<lparr>images = [0, 1 :: nat], selected_images = [0, 1], scan_mode_combo = ''Alternate'', interval_spin = 1\<rparr>"]
    export_without_invalid_argument
      [of "\<lparr>images = [0, 1 :: nat], selected_images = [0, 1], scan_mode_combo = ''Group of X'', interval_spin = 0\<rparr>"]
  by (simp add: scan_modes_def Let_def)

text \<open>
  C4. No group is empty whenever there is something to group (lemma
  \<open>no_empty_group\<close>). In mode All with no image loaded and none selected the
  output holds an empty group.
\<close>

theorem empty_group_in_all_mode:
  "case get_images_to_export
          \<lparr>images = ([] :: nat list), selected_images = [], scan_mode_combo = ''All'', interval_spin = 1\<rparr> of
     Inl e \<Rightarrow> False
   | Inr gs \<Rightarrow> [] \<in> set gs"
  by (simp add: get_images_to_export_def)

text \<open>
  C5. In mode Alternate with an interval \<open>m\<close> of at least 2 and \<open>n\<close> entries to
  group, the output has \<open>min m n\<close> groups, and group \<open>k\<close> holds the entries at
  the positions \<open>k\<close>, \<open>k + m\<close>, \<open>k + 2 * m\<close>, ... below \<open>n\<close>, in that order:
  position \<open>k + j * m\<close> for every \<open>j\<close> below \<open>(n - k + m - 1) div m\<close>, and
  these \<open>j\<close> are exactly the ones with \<open>k + j * m < n\<close>. With nothing to group
  the output is empty.
\<close>

theorem alternate_groups_by_stride:
  assumes "scan_mode_combo w = ''Alternate''" and "2 \<le> interval_spin w"
  shows "let xs = preview_images w; n = length xs; m = nat (interval_spin w);
             gs = map (\<lambda>k. map (\<lambda>j. xs ! (k + j * m)) [0..<(n - k + m - 1) div m]) [0..<min m n]
         in get_images_to_export w = Inr gs \<and>
            length gs = min m n \<and>
            (\<forall>k<min m n. \<forall>j. j < (n - k + m - 1) div m \<longleftrightarrow> k + j * m < n)"
proof -
  have m: "0 < nat (interval_spin w)" using assms(2) by simp
  have "get_images_to_export w =
        Inr (map (\<lambda>k. map (\<lambda>j. preview_images w ! (k + j * nat (interval_spin w)))
                     [0..<(length (preview_images w) - k + nat (interval_spin w) - 1) div nat (interval_spin w)])
               [0..<min (nat (interval_spin w)) (length (preview_images w))])"
    by (simp only: export_Alternate [OF assms] alternate_closed [OF m])
  moreover have "\<forall>k<min (nat (interval_spin w)) (length (preview_images w)). \<forall>j.
      j < (length (preview_images w) - k + nat (interval_spin w) - 1) div nat (interval_spin w) \<longleftrightarrow>
      k + j * nat (interval_spin w) < length (preview_images w)"
    by (simp only: count_less_iff [OF m]) simp
  ultimately show ?thesis
    unfolding Let_def by (intro conjI) simp_all
qed

theorem alternate_groups_by_stride_witness:
  "let w = \<lparr>images = [0, 1, 2, 3, 4, 5, 6, 7 :: nat], selected_images = [0, 1, 2, 3, 4, 5, 6],
              scan_mode_combo = ''Alternate'', interval_spin = 3\<rparr>
   in scan_mode_combo w = ''Alternate'' \<and> 2 \<le> interval_spin w \<and>
      get_images_to_export w = Inr [[0, 3, 6], [1, 4], [2, 5]] \<and>
      length [[0, 3, 6], [1, 4], [2, 5 :: nat]] = min (nat (interval_spin w)) (length (preview_images w))"
  using alternate_groups_by_stride
    [of "\<lparr>images = [0, 1, 2, 3, 4, 5, 6, 7 :: nat], selected_images = [0, 1, 2, 3, 4, 5, 6],
          scan_mode_combo = ''Alternate'', interval_spin = 3\<rparr>"]
  by (simp add: Let_def preview_images_def get_images_to_export_def py_range.simps)

text \<open>
  C6. Mode Alternate with an interval of at most 1 returns what mode All returns
  whenever there is something to group (lemma \<open>alternate_low_is_all\<close>). With
  no image loaded and none selected the two differ: Alternate returns the empty
  output, All returns one empty group.
\<close>

theorem alternate_low_differs_from_all:
  "get_images_to_export
     \<lparr>images = ([] :: nat list), selected_images = [], scan_mode_combo = ''Alternate'', interval_spin = 1\<rparr> =
     Inr [] \<and>
   get_images_to_export
     \<lparr>images = ([] :: nat list), selected_images = [], scan_mode_combo = ''All'', interval_spin = 1\<rparr> =
     Inr [[]]"
  by (simp add: get_images_to_export_def)

text \<open>
  C7. In mode Group of X with an interval \<open>m\<close> of at least 1 the output is the
  list of the consecutive chunks \<open>take m (drop (j * m) xs)\<close> of the grouped
  sequence \<open>xs\<close>: they concatenate to \<open>xs\<close>, there are \<open>\<lceil>n / m\<rceil>\<close> of them,
  every chunk but the last has \<open>m\<close> entries and the last has the entries that
  remain, at least one and at most \<open>m\<close>. Mode Pair is the same with chunks of
  2, the last of size 1 when \<open>n\<close> is odd. Mode Single returns one group of one
  entry per entry, in order.
\<close>

theorem consecutive_chunks:
  "(scan_mode_combo w = ''Group of X'' \<and> 1 \<le> interval_spin w \<longrightarrow>
      (let xs = preview_images w; m = nat (interval_spin w);
           gs = map (\<lambda>j. take m (drop (j * m) xs)) [0..<(length xs + m - 1) div m]
       in get_images_to_export w = Inr gs \<and> concat gs = xs \<and>
          int (length gs) = \<lceil>real (length xs) / real m\<rceil> \<and>
          (\<forall>j<length gs. length (gs ! j) = (if Suc j < length gs then m else length xs - j * m) \<and>
                           0 < length (gs ! j) \<and> length (gs ! j) \<le> m))) \<and>
   (scan_mode_combo w = ''Pair'' \<longrightarrow>
      (let xs = preview_images w;
           gs = map (\<lambda>j. take 2 (drop (j * 2) xs)) [0..<(length xs + 1) div 2]
       in get_images_to_export w = Inr gs \<and> concat gs = xs \<and>
          int (length gs) = \<lceil>real (length xs) / 2\<rceil> \<and>
          (\<forall>j<length gs. length (gs ! j) = (if Suc j < length gs then 2 else length xs - j * 2) \<and>
                           0 < length (gs ! j) \<and> length (gs ! j) \<le> 2) \<and>
          (odd (length xs) \<longrightarrow> length (last gs) = 1))) \<and>
   (scan_mode_combo w = ''Single'' \<longrightarrow>
      (let xs = preview_images w; gs = map (\<lambda>image. [image]) xs
       in get_images_to_export w = Inr gs \<and> concat gs = xs \<and> length gs = length xs))"
proof (intro conjI impI)
  assume a: "scan_mode_combo w = ''Group of X'' \<and> 1 \<le> interval_spin w"
  then have i: "0 < interval_spin w" and m: "0 < nat (interval_spin w)" by simp_all
  have "get_images_to_export w =
      Inr (map (\<lambda>j. take (nat (interval_spin w)) (drop (j * nat (interval_spin w)) (preview_images w)))
        [0..<(length (preview_images w) + nat (interval_spin w) - 1) div nat (interval_spin w)])"
    using a i by (simp only: export_Group)
  then show "let xs = preview_images w; m = nat (interval_spin w);
           gs = map (\<lambda>j. take m (drop (j * m) xs)) [0..<(length xs + m - 1) div m]
       in get_images_to_export w = Inr gs \<and> concat gs = xs \<and>
          int (length gs) = \<lceil>real (length xs) / real m\<rceil> \<and>
          (\<forall>j<length gs. length (gs ! j) = (if Suc j < length gs then m else length xs - j * m) \<and>
                           0 < length (gs ! j) \<and> length (gs ! j) \<le> m)"
    using chunks_props [OF m, of "preview_images w"] unfolding Let_def by (intro conjI) blast+
next
  assume a: "scan_mode_combo w = ''Pair''"
  have m: "0 < (2::nat)" by simp
  have e: "get_images_to_export w =
      Inr (map (\<lambda>j. take 2 (drop (j * 2) (preview_images w))) [0..<(length (preview_images w) + 1) div 2])"
    using a by (simp only: export_Pair)
  have p: "let gs = map (\<lambda>j. take 2 (drop (j * 2) (preview_images w))) [0..<(length (preview_images w) + 1) div 2]
         in concat gs = preview_images w \<and>
            int (length gs) = \<lceil>real (length (preview_images w)) / 2\<rceil> \<and>
            (\<forall>j<length gs. length (gs ! j) = (if Suc j < length gs then 2 else length (preview_images w) - j * 2) \<and>
                             0 < length (gs ! j) \<and> length (gs ! j) \<le> 2)"
  proof -
    have b: "length (preview_images w) + 2 - 1 = length (preview_images w) + 1" by simp
    have r: "real (2::nat) = 2" by simp
    show ?thesis
      using chunks_props [OF m, of "preview_images w"] unfolding b r .
  qed
  show "let xs = preview_images w;
           gs = map (\<lambda>j. take 2 (drop (j * 2) xs)) [0..<(length xs + 1) div 2]
       in get_images_to_export w = Inr gs \<and> concat gs = xs \<and>
          int (length gs) = \<lceil>real (length xs) / 2\<rceil> \<and>
          (\<forall>j<length gs. length (gs ! j) = (if Suc j < length gs then 2 else length xs - j * 2) \<and>
                           0 < length (gs ! j) \<and> length (gs ! j) \<le> 2) \<and>
          (odd (length xs) \<longrightarrow> length (last gs) = 1)"
    using e p last_pair_odd [of "preview_images w"] unfolding Let_def by (intro conjI) blast+
next
  assume "scan_mode_combo w = ''Single''"
  then show "let xs = preview_images w; gs = map (\<lambda>image. [image]) xs
       in get_images_to_export w = Inr gs \<and> concat gs = xs \<and> length gs = length xs"
    by (simp add: export_Single Let_def o_def)
qed

theorem consecutive_chunks_witness:
  "(let w = \<lparr>images = [0, 1, 2, 3, 4, 5, 6 :: nat], selected_images = [0, 1, 2, 3, 4, 5, 6],
               scan_mode_combo = ''Group of X'', interval_spin = 3\<rparr>
    in scan_mode_combo w = ''Group of X'' \<and> 1 \<le> interval_spin w \<and>
       get_images_to_export w = Inr [[0, 1, 2], [3, 4, 5], [6]]) \<and>
   (let w = \<lparr>images = [0, 1, 2, 3, 4, 5, 6 :: nat], selected_images = [0, 1, 2, 3, 4, 5, 6],
               scan_mode_combo = ''Pair'', interval_spin = 1\<rparr>
    in scan_mode_combo w = ''Pair'' \<and>
       get_images_to_export w = Inr [[0, 1], [2, 3], [4, 5], [6]]) \<and>
   (let w = \<lparr>images = [0, 1, 2, 3, 4, 5, 6 :: nat], selected_images = [0, 1, 2, 3, 4, 5, 6],
               scan_mode_combo = ''Single'', interval_spin = 1\<rparr>
    in scan_mode_combo w = ''Single'' \<and>
       get_images_to_export w = Inr [[0], [1], [2], [3], [4], [5], [6]])"
  using
    consecutive_chunks
      [of "\<lparr>images = [0, 1, 2, 3, 4, 5, 6 :: nat], selected_images = [0, 1, 2, 3, 4, 5, 6],
            scan_mode_combo = ''Group of X'', interval_spin = 3\<rparr>"]
    consecutive_chunks
      [of "\<lparr>images = [0, 1, 2, 3, 4, 5, 6 :: nat], selected_images = [0, 1, 2, 3, 4, 5, 6],
            scan_mode_combo = ''Pair'', interval_spin = 1\<rparr>"]
    consecutive_chunks
      [of "\<lparr>images = [0, 1, 2, 3, 4, 5, 6 :: nat], selected_images = [0, 1, 2, 3, 4, 5, 6],
            scan_mode_combo = ''Single'', interval_spin = 1\<rparr>"]
  by (simp add: Let_def preview_images_def get_images_to_export_def py_range.simps py_slice_def)

text \<open>
  C8. On every window, what mode Pair returns is what mode Group of X returns
  with the interval set to 2.
\<close>

theorem pair_is_group_of_two:
  "get_images_to_export (w\<lparr>scan_mode_combo := ''Pair''\<rparr>) =
   get_images_to_export (w\<lparr>scan_mode_combo := ''Group of X'', interval_spin := 2\<rparr>)"
  by (simp add: get_images_to_export_def Let_def)

text \<open>
  C9. On every window, mode Group of X with interval 1 returns what mode Single
  returns: every selected entry in a group of its own, in order.
\<close>

theorem group_of_one_is_single:
  "get_images_to_export (w\<lparr>scan_mode_combo := ''Group of X'', interval_spin := 1\<rparr>) =
     get_images_to_export (w\<lparr>scan_mode_combo := ''Single''\<rparr>) \<and>
   get_images_to_export (w\<lparr>scan_mode_combo := ''Single''\<rparr>) =
     Inr (map (\<lambda>image. [image]) (selected_images w))"
  by (simp add: export_Group export_Single preview_images_selected singletons_nth)

text \<open>
  C10. With a selection of \<open>n > 0\<close> entries and an interval of at least
  \<open>max 2 n\<close>, mode Alternate returns what mode Single returns: \<open>n\<close> groups of
  one entry, in order.
\<close>

theorem alternate_wide_is_single:
  assumes "selected_images w \<noteq> []" and "max 2 (int (length (selected_images w))) \<le> i"
  shows "get_images_to_export (w\<lparr>scan_mode_combo := ''Alternate'', interval_spin := i\<rparr>) =
           get_images_to_export (w\<lparr>scan_mode_combo := ''Single''\<rparr>) \<and>
         get_images_to_export (w\<lparr>scan_mode_combo := ''Single''\<rparr>) =
           Inr (map (\<lambda>image. [image]) (selected_images w))"
proof -
  let ?xs = "selected_images w" and ?m = "nat i"
  have i: "2 \<le> i" and n: "length ?xs \<le> ?m" and m: "0 < ?m" using assms(2) by linarith+
  have c: "(length ?xs - k + ?m - 1) div ?m = 1" if "k < length ?xs" for k
  proof (rule div_nat_eqI)
    show "?m * 1 \<le> length ?xs - k + ?m - 1" using that by simp
    show "length ?xs - k + ?m - 1 < ?m * Suc 1" using that n by simp
  qed
  have "get_images_to_export (w\<lparr>scan_mode_combo := ''Alternate'', interval_spin := i\<rparr>) =
        Inr (map (\<lambda>k. map (\<lambda>j. ?xs ! (k + j * ?m)) [0..<(length ?xs - k + ?m - 1) div ?m])
               [0..<min ?m (length ?xs)])"
    using i by (simp add: export_Alternate preview_images_selected alternate_closed [OF m])
  also have "map (\<lambda>k. map (\<lambda>j. ?xs ! (k + j * ?m)) [0..<(length ?xs - k + ?m - 1) div ?m])
               [0..<min ?m (length ?xs)] = map (\<lambda>k. [?xs ! k]) [0..<length ?xs]"
    using n c by (simp add: min_absorb2)
  also have "\<dots> = map (\<lambda>x. [x]) (map ((!) ?xs) [0..<length ?xs])" by (simp add: o_def)
  finally show ?thesis
    by (simp add: export_Single preview_images_selected map_nth)
qed

theorem alternate_wide_is_single_witness:
  "let w = \<lparr>images = [0, 1, 2 :: nat], selected_images = [0, 1, 2],
              scan_mode_combo = ''Pair'', interval_spin = 1\<rparr>
   in selected_images w \<noteq> [] \<and> max 2 (int (length (selected_images w))) \<le> 5 \<and>
      get_images_to_export (w\<lparr>scan_mode_combo := ''Alternate'', interval_spin := 5\<rparr>) =
        get_images_to_export (w\<lparr>scan_mode_combo := ''Single''\<rparr>) \<and>
      get_images_to_export (w\<lparr>scan_mode_combo := ''Single''\<rparr>) = Inr [[0], [1], [2]]"
  using alternate_wide_is_single
    [of "\<lparr>images = [0, 1, 2 :: nat], selected_images = [0, 1, 2],
          scan_mode_combo = ''Pair'', interval_spin = 1\<rparr>" 5]
  by (simp add: Let_def)

end
